theory Spec2Isabelle
  imports Complex_Main
begin

section \<open>SR\&ED time logger: sessions and gap-protected durations\<close>

text \<open>
  A shallow embedding of \<^verbatim>\<open>sred-time-system/scripts/sred_logger.py\<close>: the commit
  classifier of \<^verbatim>\<open>get_sred_commits\<close>, the session builder \<^verbatim>\<open>build_sessions\<close>, the
  duration calculator \<^verbatim>\<open>Session.calculate_duration\<close>, the total of
  \<^verbatim>\<open>generate_time_log\<close> and the property \<^verbatim>\<open>Session.hypothesis_id\<close>.

  Conventions of the embedding.
  \<^item> A \<^verbatim>\<open>datetime\<close> is the instant it denotes, as an integer number of microseconds
    (the resolution of \<^verbatim>\<open>datetime\<close>); the difference of two datetimes and their order
    are those of the integers.
  \<^item> A \<^verbatim>\<open>float\<close> is the rational number it denotes. \<open>fl\<close> rounds a rational to the
    nearest binary64 number, a tie going to the even significand; a division or an
    addition of the interpreter is the exact operation followed by \<open>fl\<close>, and
    \<^verbatim>\<open>round(x, 2)\<close> is the exact rounding of the value to hundredths, half to even,
    followed by \<open>fl\<close>. \<open>calculate_duration_float\<close> is the method in this arithmetic.
    The differences of two datetimes are below \<open>2 ^ 59\<close> microseconds, far from overflow,
    which is not modelled.
  \<^item> \<open>calculate_duration\<close> and \<open>total_hours\<close> are the same computations without the
    roundings of \<open>fl\<close>, in exact arithmetic; the statements about durations that are zero,
    about signs and bounds, and about the sessions a total covers are made of them.
  \<^item> A \<^verbatim>\<open>str\<close> is the \<^typ>\<open>string\<close> of the bytes of its UTF-8 encoding.
    \<^verbatim>\<open>lower()\<close> is modelled on the ASCII letters, the only ones of the tags. The
    characters that \<^verbatim>\<open>\d\<close> matches are a table of the interpreter's Unicode database:
    that table is a parameter \<open>isdecimal\<close> of the search, a predicate on the encoding of
    one character.
\<close>

subsection \<open>Data model\<close>

record Commit =
  hash :: string
  timestamp :: int
  message :: string
  tag :: string

record Session =
  session_id :: string
  start_commit :: Commit
  end_commit :: "Commit option"
  intermediate_commits :: "Commit list"

definition SRED_TAGS :: "string list" where
  "SRED_TAGS = [''exp:'', ''obs:'', ''test:'', ''fail:'', ''succeed:'', ''pivot:'', ''stop:'']"

definition MAX_GAP_HOURS :: rat where
  "MAX_GAP_HOURS = 4"

definition MAX_GAP_CREDIT :: rat where
  "MAX_GAP_CREDIT = 1"

definition is_session_start :: "Commit \<Rightarrow> bool" where
  "is_session_start c = (tag c \<in> set [''exp:''])"

definition is_session_end :: "Commit \<Rightarrow> bool" where
  "is_session_end c = (tag c \<in> set [''succeed:'', ''pivot:'', ''stop:'', ''fail:''])"

definition is_complete :: "Session \<Rightarrow> bool" where
  "is_complete s = (end_commit s \<noteq> None)"

subsection \<open>Duration calculator\<close>

text \<open>\<^verbatim>\<open>round(x, 2)\<close>: the nearest multiple of one hundredth, a tie going to the even one.\<close>

definition py_round2 :: "rat \<Rightarrow> rat" where
  "py_round2 x =
     (let y = x * 100; f = \<lfloor>y\<rfloor>; d = y - of_int f
      in (if d < 1 / 2 then of_int f
          else if 1 / 2 < d then of_int (f + 1)
          else if even f then of_int f else of_int (f + 1)) / 100)"

text \<open>\<^verbatim>\<open>(a.timestamp - b.timestamp).total_seconds() / 3600\<close>\<close>

definition gap_hours :: "Commit \<Rightarrow> Commit \<Rightarrow> rat" where
  "gap_hours a b = (of_int (timestamp a - timestamp b) / 1000000) / 3600"

definition credited :: "rat \<Rightarrow> rat" where
  "credited gap = (if gap > MAX_GAP_HOURS then MAX_GAP_CREDIT else gap)"

text \<open>
  The body of the loop \<^verbatim>\<open>for i in range(1, len(all_commits))\<close>, and the method.
  \<^verbatim>\<open>list.sort(key=...)\<close> is stable, as \<^const>\<open>sort_key\<close> is.
\<close>

definition duration_step :: "Commit list \<Rightarrow> nat \<Rightarrow> rat \<Rightarrow> rat" where
  "duration_step all_commits i total_hours =
     total_hours + credited (gap_hours (all_commits ! i) (all_commits ! (i - 1)))"

definition calculate_duration :: "Session \<Rightarrow> rat" where
  "calculate_duration s =
     (case end_commit s of
        None \<Rightarrow> 0
      | Some e \<Rightarrow>
          (let all_commits = sort_key timestamp ([start_commit s] @ intermediate_commits s @ [e])
           in py_round2 (fold (duration_step all_commits) [1 ..< length all_commits] 0)))"

subsection \<open>Binary floating point\<close>

text \<open>
  The binary64 numbers are the multiples of a power of two by an integer of at most 53
  bits. \<open>exponent a\<close> is the integer \<open>e\<close> with \<open>2 ^ e \<le> a < 2 ^ (e + 1)\<close>, found from the
  bit lengths of numerator and denominator; the unit in the last place of \<open>a\<close> is
  \<open>2 ^ (e - 52)\<close>, and \<open>2 ^ (- 1074)\<close> below the normal range.
\<close>

definition pow2 :: "int \<Rightarrow> rat" where
  "pow2 k = (if 0 \<le> k then 2 ^ nat k else 1 / 2 ^ nat (- k))"

definition round_half_even :: "rat \<Rightarrow> int" where
  "round_half_even y =
     (let f = \<lfloor>y\<rfloor>; d = y - of_int f
      in if d < 1 / 2 then f else if 1 / 2 < d then f + 1 else if even f then f else f + 1)"

function bit_length :: "int \<Rightarrow> int" where
  "bit_length k = (if k \<le> 0 then 0 else 1 + bit_length (k div 2))"
  by pat_completeness auto
termination
  by (relation "measure nat") auto

declare bit_length.simps [simp del]

definition exponent :: "rat \<Rightarrow> int" where
  "exponent a =
     (let (p, q) = quotient_of a; d = bit_length p - bit_length q
      in if a < pow2 d then d - 1 else d)"

text \<open>Rounding to the nearest binary64 number, ties to even.\<close>

definition fl :: "rat \<Rightarrow> rat" where
  "fl x =
     (if x = 0 then 0
      else (let a = \<bar>x\<bar>; u = pow2 (max (exponent a) (- 1022) - 52)
            in sgn x * of_int (round_half_even (a / u)) * u))"








subsection \<open>Session builder\<close>

text \<open>\<^verbatim>\<open>f"{n:03d}"\<close>: decimal digits, padded with zeros on the left to three characters.\<close>

definition digit_char :: "nat \<Rightarrow> char" where
  "digit_char d = ''0123456789'' ! d"

fun str_nat :: "nat \<Rightarrow> string" where
  "str_nat n = (if n < 10 then [digit_char n] else str_nat (n div 10) @ [digit_char (n mod 10)])"

declare str_nat.simps [simp del]

definition format_03d :: "nat \<Rightarrow> string" where
  "format_03d n = replicate (3 - length (str_nat n)) (CHR ''0'') @ str_nat n"

definition mk_session_id :: "nat \<Rightarrow> string" where
  "mk_session_id n = ''SESSION-'' @ format_03d n"

text \<open>The local variables of \<^verbatim>\<open>build_sessions\<close>.\<close>

record builder =
  sessions :: "Session list"
  current_session :: "Session option"
  session_counter :: nat

definition new_session :: "nat \<Rightarrow> Commit \<Rightarrow> Commit option \<Rightarrow> Session" where
  "new_session n c e =
     \<lparr>session_id = mk_session_id n, start_commit = c, end_commit = e, intermediate_commits = []\<rparr>"

definition init_builder :: builder where
  "init_builder = \<lparr>sessions = [], current_session = None, session_counter = 1\<rparr>"

text \<open>One iteration of \<^verbatim>\<open>for commit in commits\<close>, in the order of the source's branches.\<close>

definition build_step :: "Commit \<Rightarrow> builder \<Rightarrow> builder" where
  "build_step commit b =
     (if is_session_start commit then
        (let b1 = (case current_session b of
                     Some cur \<Rightarrow>
                       if \<not> is_complete cur then b\<lparr>sessions := sessions b @ [cur]\<rparr> else b
                   | None \<Rightarrow> b)
         in b1\<lparr>current_session := Some (new_session (session_counter b1) commit None),
               session_counter := session_counter b1 + 1\<rparr>)
      else if is_session_end commit then
        (case current_session b of
           Some cur \<Rightarrow>
             if \<not> is_complete cur then
               b\<lparr>sessions := sessions b @ [cur\<lparr>end_commit := Some commit\<rparr>],
                 current_session := None\<rparr>
             else
               b\<lparr>sessions := sessions b @ [new_session (session_counter b) commit (Some commit)],
                 session_counter := session_counter b + 1\<rparr>
         | None \<Rightarrow>
             b\<lparr>sessions := sessions b @ [new_session (session_counter b) commit (Some commit)],
               session_counter := session_counter b + 1\<rparr>)
      else
        (case current_session b of
           Some cur \<Rightarrow>
             b\<lparr>current_session :=
                 Some (cur\<lparr>intermediate_commits := intermediate_commits cur @ [commit]\<rparr>)\<rparr>
         | None \<Rightarrow> b))"

definition flush :: "builder \<Rightarrow> Session list" where
  "flush b = (case current_session b of Some cur \<Rightarrow> sessions b @ [cur] | None \<Rightarrow> sessions b)"

text \<open>The loop: \<open>run pre\<close> is the builder after the commits \<open>pre\<close> have been consumed.\<close>

definition run :: "Commit list \<Rightarrow> builder" where
  "run commits = fold build_step commits init_builder"

definition build_sessions :: "Commit list \<Rightarrow> Session list" where
  "build_sessions commits = flush (run commits)"

subsection \<open>Total of the report\<close>

text \<open>\<^verbatim>\<open>sum(s.calculate_duration() for s in sessions if s.is_complete)\<close>\<close>

definition total_hours :: "Session list \<Rightarrow> rat" where
  "total_hours ss = fold (\<lambda>s acc. acc + calculate_duration s) (filter is_complete ss) 0"

subsection \<open>Commit classifier\<close>

text \<open>
  \<^verbatim>\<open>get_sred_commits\<close> reads one line per commit from the version-control log and splits
  it into hash, timestamp and subject; here a line is that triple, the timestamp already
  parsed. \<^verbatim>\<open>message.lower()\<close>, \<^verbatim>\<open>str.startswith\<close> and the loop over \<^verbatim>\<open>SRED_TAGS\<close>
  that stops at the first hit:
\<close>

definition lower_char :: "char \<Rightarrow> char" where
  "lower_char c =
     (let n = (of_char c :: nat) in if 65 \<le> n \<and> n \<le> 90 then char_of (n + 32) else c)"

definition lower :: "string \<Rightarrow> string" where
  "lower s = map lower_char s"

definition startswith :: "string \<Rightarrow> string \<Rightarrow> bool" where
  "startswith s t = (take (length t) s = t)"

fun find_tag :: "string \<Rightarrow> string list \<Rightarrow> string option" where
  "find_tag msg_lower [] = None"
| "find_tag msg_lower (t # ts) = (if startswith msg_lower t then Some t else find_tag msg_lower ts)"

definition classify_tag :: "string \<Rightarrow> string option" where
  "classify_tag msg = find_tag (lower msg) SRED_TAGS"

definition sred_commit :: "string \<times> int \<times> string \<Rightarrow> Commit option" where
  "sred_commit line =
     (case line of (commit_hash, ts, msg) \<Rightarrow>
        (case classify_tag msg of
           None \<Rightarrow> None
         | Some t \<Rightarrow> Some \<lparr>hash = take 8 commit_hash, timestamp = ts, message = msg, tag = t\<rparr>))"

definition get_sred_commits :: "(string \<times> int \<times> string) list \<Rightarrow> Commit list" where
  "get_sred_commits lines = sort_key timestamp (List.map_filter sred_commit lines)"

text \<open>
  The role of a commit is the branch of the loop of \<^verbatim>\<open>build_sessions\<close> it takes; a
  message without a tag has no commit, which is the fourth role.
\<close>

datatype role = Start | Intermediate | End | NoRole

definition commit_role :: "Commit \<Rightarrow> role" where
  "commit_role c =
     (if is_session_start c then Start else if is_session_end c then End else Intermediate)"

definition message_role :: "string \<Rightarrow> role" where
  "message_role msg =
     (case sred_commit ([], 0, msg) of None \<Rightarrow> NoRole | Some c \<Rightarrow> commit_role c)"

text \<open>The table of the specification: a prefix match that ignores the case of letters.\<close>

definition ci_prefix :: "string \<Rightarrow> string \<Rightarrow> bool" where
  "ci_prefix p msg =
     (length p \<le> length msg
      \<and> list_all2 (\<lambda>a b. lower_char a = lower_char b) p (take (length p) msg))"

definition spec_role :: "string \<Rightarrow> role" where
  "spec_role msg =
     (if ci_prefix ''exp:'' msg then Start
      else if ci_prefix ''obs:'' msg \<or> ci_prefix ''test:'' msg then Intermediate
      else if ci_prefix ''succeed:'' msg \<or> ci_prefix ''pivot:'' msg
              \<or> ci_prefix ''stop:'' msg \<or> ci_prefix ''fail:'' msg then End
      else NoRole)"

subsection \<open>Experiment identifier\<close>

text \<open>
  The regular expression works on the characters of the message: \<open>codepoints\<close> cuts the
  bytes of a message into the encodings of its characters, by the length that the first
  byte of each announces.
\<close>

definition utf8_len :: "char \<Rightarrow> nat" where
  "utf8_len c =
     (let n = (of_char c :: nat)
      in if n < 192 then 1 else if n < 224 then 2 else if n < 240 then 3 else 4)"

function codepoints :: "string \<Rightarrow> string list" where
  "codepoints [] = []"
| "codepoints (c # cs) =
     (c # take (utf8_len c - 1) cs) # codepoints (drop (utf8_len c - 1) cs)"
  by pat_completeness auto
termination
  by (relation "measure length") auto

text \<open>
  \<^verbatim>\<open>re.search(r'EXP-\d+', message)\<close>: the match at the leftmost position where the
  pattern matches, the digits taken greedily; \<open>isdecimal\<close> says which characters are
  decimal digits.
\<close>

definition EXP_DASH :: "string list" where
  "EXP_DASH = codepoints ''EXP-''"

definition match_here :: "(string \<Rightarrow> bool) \<Rightarrow> string list \<Rightarrow> string list option" where
  "match_here isdecimal cps =
     (let ds = takeWhile isdecimal (drop (length EXP_DASH) cps)
      in if take (length EXP_DASH) cps = EXP_DASH \<and> ds \<noteq> [] then Some (EXP_DASH @ ds) else None)"

fun re_search :: "(string \<Rightarrow> bool) \<Rightarrow> string list \<Rightarrow> string list option" where
  "re_search isdecimal [] = None"
| "re_search isdecimal (c # cs) =
     (case match_here isdecimal (c # cs) of
        Some m \<Rightarrow> Some m
      | None \<Rightarrow> re_search isdecimal cs)"

definition hypothesis_id :: "(string \<Rightarrow> bool) \<Rightarrow> Session \<Rightarrow> string" where
  "hypothesis_id isdecimal s =
     (case re_search isdecimal (codepoints (message (start_commit s))) of
        Some m \<Rightarrow> concat m
      | None \<Rightarrow> ''UNKNOWN'')"

text \<open>
  What the pattern denotes: the words \<open>EXP-\<close> followed by one digit or more, and their
  occurrences in a message.
\<close>

definition exp_ref :: "(string \<Rightarrow> bool) \<Rightarrow> string list \<Rightarrow> bool" where
  "exp_ref isdecimal w =
     (take (length EXP_DASH) w = EXP_DASH \<and> drop (length EXP_DASH) w \<noteq> []
      \<and> list_all isdecimal (drop (length EXP_DASH) w))"

definition occurs_at :: "(string \<Rightarrow> bool) \<Rightarrow> string list \<Rightarrow> nat \<Rightarrow> string list \<Rightarrow> bool" where
  "occurs_at isdecimal cps i w = (exp_ref isdecimal w \<and> take (length w) (drop i cps) = w)"

text \<open>
  A part of the table of decimal digits, for examples: the ASCII digits and the
  Arabic-Indic digits U+0660 to U+0669.
\<close>

definition ascii_or_arabic_indic :: "string \<Rightarrow> bool" where
  "ascii_or_arabic_indic c =
     (c \<in> set (map (\<lambda>d. [d]) ''0123456789'' @
               map (\<lambda>b. [CHR 0xD9, b])
                 [CHR 0xA0, CHR 0xA1, CHR 0xA2, CHR 0xA3, CHR 0xA4,
                  CHR 0xA5, CHR 0xA6, CHR 0xA7, CHR 0xA8, CHR 0xA9]))"

subsection \<open>Reference definitions\<close>







text \<open>The number a session identifier carries, read back from its decimal digits.\<close>

definition digit_val :: "char \<Rightarrow> nat" where
  "digit_val c = of_char c - 48"

definition read_nat :: "string \<Rightarrow> nat" where
  "read_nat s = foldl (\<lambda>a c. 10 * a + digit_val c) 0 s"

definition session_number :: "Session \<Rightarrow> nat" where
  "session_number s = read_nat (drop (length ''SESSION-'') (session_id s))"

section \<open>Properties\<close>

subsection \<open>The loop of the session builder\<close>

lemma run_Nil: "run [] = init_builder"
  by (simp add: run_def)

lemma run_snoc: "run (pre @ [c]) = build_step c (run pre)"
  by (simp add: run_def)

lemma run_append: "run (pre @ post) = fold build_step post (run pre)"
  by (simp add: run_def)

lemma end_not_start: "is_session_end c \<Longrightarrow> \<not> is_session_start c"
  by (auto simp: is_session_end_def is_session_start_def)

text \<open>The session held in \<^verbatim>\<open>current_session\<close> never has an end commit.\<close>

lemma build_step_open:
  assumes "\<forall>cur. current_session b = Some cur \<longrightarrow> end_commit cur = None"
  shows "\<forall>cur. current_session (build_step c b) = Some cur \<longrightarrow> end_commit cur = None"
  using assms
  by (auto simp: build_step_def Let_def new_session_def is_complete_def
      split: option.splits if_splits)

lemma run_open_all:
  "\<forall>cur. current_session (run pre) = Some cur \<longrightarrow> end_commit cur = None"
proof (induction pre rule: rev_induct)
  case Nil
  show ?case by (simp add: run_Nil init_builder_def)
next
  case (snoc c pre)
  show ?case
    unfolding run_snoc using snoc.IH by (rule build_step_open)
qed

lemma run_open: "current_session (run pre) = Some cur \<Longrightarrow> end_commit cur = None"
  using run_open_all by blast

text \<open>Sessions already appended to \<^verbatim>\<open>sessions\<close> stay as they are.\<close>

lemma build_step_sessions: "\<exists>ys. sessions (build_step c b) = sessions b @ ys"
  by (auto simp: build_step_def Let_def split: option.splits)

lemma fold_step_sessions: "\<exists>ys. sessions (fold build_step post b) = sessions b @ ys"
proof (induction post arbitrary: b)
  case Nil
  then show ?case by simp
next
  case (Cons c post)
  obtain ys where 1: "sessions (build_step c b) = sessions b @ ys"
    using build_step_sessions by blast
  obtain zs where 2:
    "sessions (fold build_step post (build_step c b)) = sessions (build_step c b) @ zs"
    using Cons.IH by blast
  show ?case using 1 2 by simp
qed

lemma flush_sessions: "\<exists>ys. flush b = sessions b @ ys"
  by (auto simp: flush_def split: option.splits)

lemma emitted_stay: "\<exists>ys. build_sessions (pre @ post) = sessions (run pre) @ ys"
proof -
  obtain ys where 1: "sessions (run (pre @ post)) = sessions (run pre) @ ys"
    using fold_step_sessions [of post "run pre"] by (auto simp: run_append)
  obtain zs where 2: "flush (run (pre @ post)) = sessions (run (pre @ post)) @ zs"
    using flush_sessions by blast
  show ?thesis using 1 2 by (simp add: build_sessions_def)
qed

subsection \<open>Durations that are zero\<close>

lemma py_round2_0: "py_round2 0 = 0"
  by (simp add: py_round2_def)

lemma calculate_duration_incomplete: "end_commit s = None \<Longrightarrow> calculate_duration s = 0"
  by (simp add: calculate_duration_def)

lemma calculate_duration_orphan:
  "end_commit s = Some (start_commit s) \<Longrightarrow> intermediate_commits s = [] \<Longrightarrow>
   calculate_duration s = 0"
  by (simp add: calculate_duration_def duration_step_def gap_hours_def credited_def
      MAX_GAP_HOURS_def py_round2_0)

subsection \<open>Transitions of the session builder\<close>

text \<open>
  C3 (supersession). When a start commit \<open>c\<close> is consumed while a session \<open>cur\<close> is open,
  \<open>cur\<close> has no end commit and is appended to the emitted sessions exactly as it is, the
  open session becomes a new one that starts with \<open>c\<close> and has neither end commit nor
  intermediates, and the emitted session keeps its place in the final result; its duration
  is zero. If the stream ends there, the result is what was emitted before, then \<open>cur\<close>,
  then the new session: for two start commits at 09:00 and 09:30 and nothing else, an
  Incomplete first session of duration zero and a second session that starts at 09:30.
\<close>

theorem supersession:
  assumes "is_session_start c" and "current_session (run pre) = Some cur"
  shows "\<not> is_complete cur
       \<and> sessions (run (pre @ [c])) = sessions (run pre) @ [cur]
       \<and> current_session (run (pre @ [c])) =
           Some \<lparr>session_id = mk_session_id (session_counter (run pre)),
                 start_commit = c, end_commit = None, intermediate_commits = []\<rparr>
       \<and> (\<exists>rest. build_sessions (pre @ c # post) = sessions (run pre) @ cur # rest)
       \<and> build_sessions (pre @ [c]) =
           sessions (run pre) @
           [cur, \<lparr>session_id = mk_session_id (session_counter (run pre)),
                   start_commit = c, end_commit = None, intermediate_commits = []\<rparr>]
       \<and> calculate_duration cur = 0"
proof -
  have inc: "end_commit cur = None" using assms(2) by (rule run_open)
  have 1: "sessions (run (pre @ [c])) = sessions (run pre) @ [cur]"
    using assms inc by (simp add: run_snoc build_step_def Let_def is_complete_def)
  have 2: "current_session (run (pre @ [c])) =
           Some \<lparr>session_id = mk_session_id (session_counter (run pre)),
                 start_commit = c, end_commit = None, intermediate_commits = []\<rparr>"
    using assms inc
    by (simp add: run_snoc build_step_def Let_def is_complete_def new_session_def)
  obtain ys where "build_sessions ((pre @ [c]) @ post) = sessions (run (pre @ [c])) @ ys"
    using emitted_stay by blast
  then have 3: "\<exists>rest. build_sessions (pre @ c # post) = sessions (run pre) @ cur # rest"
    using 1 by simp
  have 4: "build_sessions (pre @ [c]) =
           sessions (run pre) @
           [cur, \<lparr>session_id = mk_session_id (session_counter (run pre)),
                   start_commit = c, end_commit = None, intermediate_commits = []\<rparr>]"
    using 1 2 by (simp add: build_sessions_def flush_def)
  have 0: "\<not> is_complete cur"
    using inc by (simp add: is_complete_def)
  have 5: "calculate_duration cur = 0"
    using inc by (rule calculate_duration_incomplete)
  show ?thesis
    by (intro conjI; fact 0 1 2 3 4 5)
qed

theorem supersession_witness:
  "is_session_start
     \<lparr>hash = ''b2'', timestamp = 34200000000, message = ''exp: second'', tag = ''exp:''\<rparr>
   \<and> current_session
       (run [\<lparr>hash = ''a1'', timestamp = 32400000000, message = ''exp: first'', tag = ''exp:''\<rparr>]) =
     Some \<lparr>session_id = ''SESSION-001'',
           start_commit =
             \<lparr>hash = ''a1'', timestamp = 32400000000, message = ''exp: first'', tag = ''exp:''\<rparr>,
           end_commit = None, intermediate_commits = []\<rparr>
   \<and> build_sessions
       [\<lparr>hash = ''a1'', timestamp = 32400000000, message = ''exp: first'', tag = ''exp:''\<rparr>,
        \<lparr>hash = ''b2'', timestamp = 34200000000, message = ''exp: second'', tag = ''exp:''\<rparr>] =
     [\<lparr>session_id = ''SESSION-001'',
       start_commit =
         \<lparr>hash = ''a1'', timestamp = 32400000000, message = ''exp: first'', tag = ''exp:''\<rparr>,
       end_commit = None, intermediate_commits = []\<rparr>,
      \<lparr>session_id = ''SESSION-002'',
       start_commit =
         \<lparr>hash = ''b2'', timestamp = 34200000000, message = ''exp: second'', tag = ''exp:''\<rparr>,
       end_commit = None, intermediate_commits = []\<rparr>]
   \<and> calculate_duration
       \<lparr>session_id = ''SESSION-001'',
        start_commit =
          \<lparr>hash = ''a1'', timestamp = 32400000000, message = ''exp: first'', tag = ''exp:''\<rparr>,
        end_commit = None, intermediate_commits = []\<rparr> = 0"
proof -
  let ?a = "\<lparr>hash = ''a1'', timestamp = 32400000000, message = ''exp: first'', tag = ''exp:''\<rparr>"
  let ?b = "\<lparr>hash = ''b2'', timestamp = 34200000000, message = ''exp: second'', tag = ''exp:''\<rparr>"
  let ?s = "\<lparr>session_id = ''SESSION-001'', start_commit = ?a,
             end_commit = None, intermediate_commits = []\<rparr>"
  have st: "is_session_start ?b"
    by (simp add: is_session_start_def)
  have r: "run [?a] = \<lparr>sessions = [], current_session = Some ?s, session_counter = 2\<rparr>"
    by code_simp
  have cur: "current_session (run [?a]) = Some ?s"
    by (simp add: r)
  have id2: "mk_session_id 2 = ''SESSION-002''"
    by code_simp
  note inst = supersession [OF st cur, of "[]"]
  have b: "build_sessions ([?a] @ [?b]) =
           [?s, \<lparr>session_id = ''SESSION-002'', start_commit = ?b,
                 end_commit = None, intermediate_commits = []\<rparr>]"
    using inst by (simp only: r id2 builder.simps append_Nil)
  have d: "calculate_duration ?s = 0"
    using inst by blast
  show ?thesis
    using st cur b d by (simp only: append_Cons append_Nil simp_thms)
qed

text \<open>
  C4 (orphan end). When an end commit \<open>c\<close> is consumed while no session is open, exactly
  one session is appended to the emitted sessions: its start commit and its end commit
  are both \<open>c\<close> and it has no intermediates; no session is open afterwards; the session is
  Complete and its duration is zero.
\<close>

theorem orphan_end:
  assumes "is_session_end c" and "current_session (run pre) = None"
  shows "sessions (run (pre @ [c])) =
           sessions (run pre) @
           [\<lparr>session_id = mk_session_id (session_counter (run pre)),
             start_commit = c, end_commit = Some c, intermediate_commits = []\<rparr>]
       \<and> current_session (run (pre @ [c])) = None
       \<and> is_complete \<lparr>session_id = mk_session_id (session_counter (run pre)),
                      start_commit = c, end_commit = Some c, intermediate_commits = []\<rparr>
       \<and> calculate_duration
           \<lparr>session_id = mk_session_id (session_counter (run pre)),
            start_commit = c, end_commit = Some c, intermediate_commits = []\<rparr> = 0"
  using assms end_not_start [of c]
  by (simp add: run_snoc build_step_def new_session_def is_complete_def
      calculate_duration_orphan)

theorem orphan_end_witness:
  "is_session_end
     \<lparr>hash = ''e5'', timestamp = 50400000000, message = ''stop: done'', tag = ''stop:''\<rparr>
   \<and> current_session (run []) = None
   \<and> sessions (run
       [\<lparr>hash = ''e5'', timestamp = 50400000000, message = ''stop: done'', tag = ''stop:''\<rparr>]) =
     [\<lparr>session_id = ''SESSION-001'',
       start_commit =
         \<lparr>hash = ''e5'', timestamp = 50400000000, message = ''stop: done'', tag = ''stop:''\<rparr>,
       end_commit =
         Some \<lparr>hash = ''e5'', timestamp = 50400000000, message = ''stop: done'', tag = ''stop:''\<rparr>,
       intermediate_commits = []\<rparr>]
   \<and> current_session (run
       [\<lparr>hash = ''e5'', timestamp = 50400000000, message = ''stop: done'', tag = ''stop:''\<rparr>]) =
     None
   \<and> calculate_duration
       \<lparr>session_id = ''SESSION-001'',
        start_commit =
          \<lparr>hash = ''e5'', timestamp = 50400000000, message = ''stop: done'', tag = ''stop:''\<rparr>,
        end_commit =
          Some \<lparr>hash = ''e5'', timestamp = 50400000000, message = ''stop: done'', tag = ''stop:''\<rparr>,
        intermediate_commits = []\<rparr> = 0"
proof -
  let ?e = "\<lparr>hash = ''e5'', timestamp = 50400000000, message = ''stop: done'', tag = ''stop:''\<rparr>"
  have en: "is_session_end ?e"
    by (simp add: is_session_end_def)
  have idle: "current_session (run []) = None"
    by (simp add: run_Nil init_builder_def)
  have r: "run [] = \<lparr>sessions = [], current_session = None, session_counter = 1\<rparr>"
    by (simp add: run_Nil init_builder_def)
  have id1: "mk_session_id 1 = ''SESSION-001''"
    by code_simp
  note inst = orphan_end [OF en idle]
  show ?thesis
    using en idle inst by (simp only: r id1 builder.simps append_Nil simp_thms)
qed

text \<open>
  C6 (intermediate while idle). When a commit that is neither a start nor an end commit
  is consumed while no session is open, the builder is unchanged, and the sessions built
  from the stream with the commit at that point are those built from the stream without it.
\<close>

theorem idle_intermediate_dropped:
  assumes "\<not> is_session_start c" and "\<not> is_session_end c"
    and "current_session (run pre) = None"
  shows "run (pre @ [c]) = run pre
       \<and> build_sessions (pre @ c # post) = build_sessions (pre @ post)"
proof -
  have 1: "build_step c (run pre) = run pre"
    using assms by (simp add: build_step_def)
  then have "run (pre @ c # post) = run (pre @ post)"
    by (simp add: run_def)
  then show ?thesis using 1 by (simp add: build_sessions_def run_snoc)
qed

theorem idle_intermediate_dropped_witness:
  "\<not> is_session_start
       \<lparr>hash = ''o1'', timestamp = 100, message = ''obs: stray'', tag = ''obs:''\<rparr>
   \<and> \<not> is_session_end
       \<lparr>hash = ''o1'', timestamp = 100, message = ''obs: stray'', tag = ''obs:''\<rparr>
   \<and> current_session (run []) = None
   \<and> run [\<lparr>hash = ''o1'', timestamp = 100, message = ''obs: stray'', tag = ''obs:''\<rparr>] = run []
   \<and> build_sessions
       [\<lparr>hash = ''o1'', timestamp = 100, message = ''obs: stray'', tag = ''obs:''\<rparr>,
        \<lparr>hash = ''a1'', timestamp = 200, message = ''exp: first'', tag = ''exp:''\<rparr>] =
     build_sessions
       [\<lparr>hash = ''a1'', timestamp = 200, message = ''exp: first'', tag = ''exp:''\<rparr>]"
proof -
  let ?o = "\<lparr>hash = ''o1'', timestamp = 100, message = ''obs: stray'', tag = ''obs:''\<rparr>"
  let ?a = "\<lparr>hash = ''a1'', timestamp = 200, message = ''exp: first'', tag = ''exp:''\<rparr>"
  have ns: "\<not> is_session_start ?o"
    by (simp add: is_session_start_def)
  have ne: "\<not> is_session_end ?o"
    by (simp add: is_session_end_def)
  have idle: "current_session (run []) = None"
    by (simp add: run_Nil init_builder_def)
  note inst = idle_intermediate_dropped [OF ns ne idle, of "[?a]"]
  show ?thesis
    using ns ne idle inst by (simp only: append_Nil simp_thms)
qed

subsection \<open>The duration as a sum of credited gaps\<close>



lemma fold_add_sum: "fold (\<lambda>i t. t + g i) xs acc = (acc :: rat) + sum_list (map g xs)"
  by (induction xs arbitrary: acc) (simp_all add: add.assoc)







subsection \<open>Binary floating point: the rounding\<close>

lemma pow2_powi: "pow2 k = 2 powi k"
  by (simp add: pow2_def power_int_def inverse_eq_divide power_one_over)

lemma pow2_pos: "0 < pow2 k"
  by (simp add: pow2_powi zero_less_power_int)

lemma pow2_Suc: "pow2 (k + 1) = 2 * pow2 k"
  by (simp add: pow2_powi power_int_add)

lemma bit_length_bounds:
  "0 < k \<Longrightarrow> pow2 (bit_length k - 1) \<le> of_int k \<and> of_int k < pow2 (bit_length k)"
proof (induction k rule: bit_length.induct)
  case (1 k)
  show ?case
  proof (cases "k = 1")
    case True
    have "bit_length 1 = 1"
      by (simp add: bit_length.simps [of 1] bit_length.simps [of 0])
    then show ?thesis using True by (simp add: pow2_def)
  next
    case False
    with "1.prems" have k2: "2 \<le> k" by simp
    then have pos: "0 < k div 2" by simp
    define h where "h = k div 2"
    define b where "b = bit_length h"
    have ih: "pow2 (b - 1) \<le> of_int h" "of_int h < pow2 b"
      using "1.IH" "1.prems" pos by (simp_all add: h_def b_def)
    have bl: "bit_length k = b + 1"
      using "1.prems" by (simp add: bit_length.simps [of k] h_def b_def)
    have hk: "2 * h \<le> k" "k \<le> 2 * h + 1" by (simp_all add: h_def)
    have "pow2 b = 2 * pow2 (b - 1)" using pow2_Suc [of "b - 1"] by simp
    also have "\<dots> \<le> 2 * of_int h" using ih(1) by simp
    also have "\<dots> \<le> of_int k" using hk(1) by (metis of_int_le_iff of_int_mult of_int_numeral)
    finally have lo: "pow2 b \<le> of_int k" .
    have bpos: "0 \<le> b"
    proof (rule ccontr)
      assume "\<not> 0 \<le> b"
      then have "b \<le> - 1" by simp
      then have "(2 :: rat) powi b \<le> 2 powi (- 1)"
        by (rule power_int_increasing) simp
      then have "pow2 b \<le> pow2 (- 1)"
        by (simp only: pow2_powi)
      then have "pow2 b \<le> 1 / 2" by (simp add: pow2_def)
      moreover have "(1 :: rat) \<le> of_int h" using pos by (simp add: h_def)
      ultimately show False using ih(2) by linarith
    qed
    then have int_pow: "pow2 b = of_int (2 ^ nat b)" by (simp add: pow2_def)
    have "h < 2 ^ nat b" using ih(2) unfolding int_pow by (simp only: of_int_less_iff)
    then have "k < 2 * 2 ^ nat b" using hk(2) by linarith
    then have "(of_int k :: rat) < of_int (2 * 2 ^ nat b)" by (simp only: of_int_less_iff)
    then have hi: "of_int k < pow2 (b + 1)"
      by (simp add: pow2_Suc int_pow)
    show ?thesis using lo hi by (simp add: bl)
  qed
qed

lemma exponent_bounds:
  assumes "0 < a"
  shows "pow2 (exponent a) \<le> a \<and> a < pow2 (exponent a + 1)"
proof -
  obtain p q where pq: "quotient_of a = (p, q)" by (cases "quotient_of a")
  have q: "0 < q" using pq by (rule quotient_of_denom_pos)
  have a: "a = of_int p / of_int q" using pq by (rule quotient_of_div)
  have p: "0 < p"
  proof (rule ccontr)
    assume "\<not> 0 < p"
    then have "(of_int p :: rat) \<le> 0" by simp
    then have "a \<le> 0" using q by (simp add: a divide_le_0_iff)
    with assms show False by simp
  qed
  define d where "d = bit_length p - bit_length q"
  have bp: "pow2 (bit_length p - 1) \<le> of_int p" "of_int p < pow2 (bit_length p)"
    using bit_length_bounds [OF p] by simp_all
  have bq: "pow2 (bit_length q - 1) \<le> of_int q" "of_int q < pow2 (bit_length q)"
    using bit_length_bounds [OF q] by simp_all
  have qpos: "(0 :: rat) < of_int q" using q by simp
  have "a * of_int q = of_int p" using qpos by (simp add: a)
  have up: "a < pow2 (d + 1)"
  proof -
    have "pow2 (d + 1) * pow2 (bit_length q - 1) = pow2 (bit_length p)"
      by (simp add: pow2_powi d_def power_int_add [symmetric])
    then have "of_int p < pow2 (d + 1) * pow2 (bit_length q - 1)" using bp(2) by simp
    also have "\<dots> \<le> pow2 (d + 1) * of_int q"
      using bq(1) pow2_pos [of "d + 1"] by simp
    finally show ?thesis using qpos by (simp add: a pos_divide_less_eq)
  qed
  have lo: "pow2 (d - 1) < a"
  proof -
    have "pow2 (d - 1) * pow2 (bit_length q) = pow2 (bit_length p - 1)"
      by (simp add: pow2_powi d_def power_int_add [symmetric])
    have "pow2 (d - 1) * of_int q < pow2 (d - 1) * pow2 (bit_length q)"
      using bq(2) pow2_pos [of "d - 1"] by simp
    also have "\<dots> = pow2 (bit_length p - 1)"
      by (simp add: pow2_powi d_def power_int_add [symmetric])
    also have "\<dots> \<le> of_int p" by (rule bp(1))
    finally show ?thesis using qpos by (simp add: a pos_less_divide_eq)
  qed
  have e: "exponent a = (if a < pow2 d then d - 1 else d)"
    by (simp add: exponent_def pq d_def Let_def)
  show ?thesis
  proof (cases "a < pow2 d")
    case True
    then show ?thesis using lo by (simp add: e)
  next
    case False
    then show ?thesis using up by (simp add: e)
  qed
qed

lemma round_half_even_nearest: "\<bar>y - of_int (round_half_even y)\<bar> \<le> 1 / 2"
proof -
  define f where "f = \<lfloor>y\<rfloor>"
  define d where "d = y - of_int f"
  define r where "r = round_half_even y"
  have d0: "0 \<le> d" and d1: "d < 1"
    unfolding d_def f_def by linarith+
  have lo: "y - of_int f = d" and hi: "y - of_int (f + 1) = d - 1"
    by (simp_all add: d_def)
  have r: "r = (if d < 1 / 2 then f else if 1 / 2 < d then f + 1 else if even f then f else f + 1)"
    unfolding r_def round_half_even_def Let_def d_def f_def by (rule refl)
  have "\<bar>y - of_int r\<bar> \<le> 1 / 2"
  proof (cases "r = f")
    case True
    then have "\<not> 1 / 2 < d" using r by (auto split: if_splits)
    moreover have "\<bar>y - of_int r\<bar> = \<bar>d\<bar>" by (simp only: True lo)
    ultimately show ?thesis using d0 by linarith
  next
    case False
    then have rf: "r = f + 1" and nd: "\<not> d < 1 / 2" using r by (auto split: if_splits)
    have "\<bar>y - of_int r\<bar> = \<bar>d - 1\<bar>" by (simp only: rf hi)
    then show ?thesis using nd d1 by linarith
  qed
  then show ?thesis by (simp only: r_def)
qed

text \<open>
  \<open>fl x\<close> is a multiple of the unit in the last place of \<open>x\<close>, at most half a unit
  from \<open>x\<close>.
\<close>

lemma fl_nearest:
  assumes "x \<noteq> 0"
  shows "\<exists>m. fl x = of_int m * pow2 (max (exponent \<bar>x\<bar>) (- 1022) - 52)
           \<and> \<bar>x - fl x\<bar> \<le> pow2 (max (exponent \<bar>x\<bar>) (- 1022) - 52) / 2"
proof -
  define u where "u = pow2 (max (exponent \<bar>x\<bar>) (- 1022) - 52)"
  define r where "r = round_half_even (\<bar>x\<bar> / u)"
  have u: "0 < u" by (simp add: u_def pow2_pos)
  have f: "fl x = sgn x * of_int r * u"
    using assms by (simp add: fl_def Let_def u_def r_def)
  have "\<bar>\<bar>x\<bar> / u - of_int r\<bar> \<le> 1 / 2"
    unfolding r_def by (rule round_half_even_nearest)
  then have "\<bar>\<bar>x\<bar> / u - of_int r\<bar> * u \<le> 1 / 2 * u"
    using u by (simp only: mult_le_cancel_right_pos)
  moreover have "\<bar>\<bar>x\<bar> / u - of_int r\<bar> * u = \<bar>\<bar>x\<bar> - of_int r * u\<bar>"
  proof -
    have "\<bar>\<bar>x\<bar> / u - of_int r\<bar> * u = \<bar>(\<bar>x\<bar> / u - of_int r) * u\<bar>"
      using u by (simp add: abs_mult)
    also have "(\<bar>x\<bar> / u - of_int r) * u = \<bar>x\<bar> - of_int r * u"
      using u by (simp add: algebra_simps)
    finally show ?thesis .
  qed
  ultimately have near: "\<bar>\<bar>x\<bar> - of_int r * u\<bar> \<le> u / 2" by simp
  have "\<bar>x - fl x\<bar> = \<bar>\<bar>x\<bar> - of_int r * u\<bar>"
  proof (cases "0 < x")
    case True
    then show ?thesis by (simp add: f)
  next
    case False
    with assms have "x < 0" by simp
    then have "x - fl x = - (\<bar>x\<bar> - of_int r * u)" by (simp add: f)
    then show ?thesis by (simp only: abs_minus_cancel)
  qed
  with near have 2: "\<bar>x - fl x\<bar> \<le> u / 2" by simp
  have "fl x = of_int (if 0 < x then r else - r) * u"
    using assms by (cases "0 < x") (simp_all add: f)
  then show ?thesis using 2 unfolding u_def by blast
qed

subsection \<open>The duration in floating point\<close>








subsection \<open>Bounds on durations and totals\<close>









lemma total_hours_sum:
  "total_hours ss = sum_list (map calculate_duration (filter is_complete ss))"
  unfolding total_hours_def using fold_add_sum [of calculate_duration _ 0] by simp





text \<open>
  C2 (total over Complete sessions). The total of a list of sessions is the sum of the
  durations of its Complete sessions; every Incomplete session has duration zero, so the
  total is also the sum over all the sessions.
\<close>

theorem total_over_complete:
  "total_hours ss = sum_list (map calculate_duration (filter is_complete ss))
   \<and> total_hours ss = sum_list (map calculate_duration ss)
   \<and> (\<forall>s \<in> set ss. \<not> is_complete s \<longrightarrow> calculate_duration s = 0)"
proof -
  have z: "\<And>s. \<not> is_complete s \<Longrightarrow> calculate_duration s = 0"
    by (simp add: is_complete_def calculate_duration_incomplete)
  have "sum_list (map calculate_duration (filter is_complete ss)) =
        sum_list (map calculate_duration ss)"
    by (rule sum_list_map_filter) (simp add: z)
  then show ?thesis
    using z by (simp add: total_hours_sum)
qed

theorem total_over_complete_witness:
  "build_sessions
     [\<lparr>hash = ''a1'', timestamp = 32400000000, message = ''exp: A'', tag = ''exp:''\<rparr>,
      \<lparr>hash = ''b2'', timestamp = 36000000000, message = ''obs: B'', tag = ''obs:''\<rparr>,
      \<lparr>hash = ''c3'', timestamp = 39600000000, message = ''succeed: C'', tag = ''succeed:''\<rparr>,
      \<lparr>hash = ''f4'', timestamp = 43200000000, message = ''exp: F'', tag = ''exp:''\<rparr>] =
     [\<lparr>session_id = ''SESSION-001'', start_commit = \<lparr>hash = ''a1'', timestamp = 32400000000, message = ''exp: A'', tag = ''exp:''\<rparr>,
       end_commit = Some \<lparr>hash = ''c3'', timestamp = 39600000000, message = ''succeed: C'', tag = ''succeed:''\<rparr>, intermediate_commits = [\<lparr>hash = ''b2'', timestamp = 36000000000, message = ''obs: B'', tag = ''obs:''\<rparr>]\<rparr>,
      \<lparr>session_id = ''SESSION-002'', start_commit = \<lparr>hash = ''f4'', timestamp = 43200000000, message = ''exp: F'', tag = ''exp:''\<rparr>,
       end_commit = None, intermediate_commits = []\<rparr>]
   \<and> \<not> is_complete
      \<lparr>session_id = ''SESSION-002'', start_commit = \<lparr>hash = ''f4'', timestamp = 43200000000, message = ''exp: F'', tag = ''exp:''\<rparr>,
       end_commit = None, intermediate_commits = []\<rparr>
   \<and> calculate_duration
      \<lparr>session_id = ''SESSION-002'', start_commit = \<lparr>hash = ''f4'', timestamp = 43200000000, message = ''exp: F'', tag = ''exp:''\<rparr>,
       end_commit = None, intermediate_commits = []\<rparr> = 0
   \<and> total_hours (build_sessions
     [\<lparr>hash = ''a1'', timestamp = 32400000000, message = ''exp: A'', tag = ''exp:''\<rparr>,
      \<lparr>hash = ''b2'', timestamp = 36000000000, message = ''obs: B'', tag = ''obs:''\<rparr>,
      \<lparr>hash = ''c3'', timestamp = 39600000000, message = ''succeed: C'', tag = ''succeed:''\<rparr>,
      \<lparr>hash = ''f4'', timestamp = 43200000000, message = ''exp: F'', tag = ''exp:''\<rparr>]) = 2"
proof -
  let ?cs = "[\<lparr>hash = ''a1'', timestamp = 32400000000, message = ''exp: A'', tag = ''exp:''\<rparr>,
      \<lparr>hash = ''b2'', timestamp = 36000000000, message = ''obs: B'', tag = ''obs:''\<rparr>,
      \<lparr>hash = ''c3'', timestamp = 39600000000, message = ''succeed: C'', tag = ''succeed:''\<rparr>,
      \<lparr>hash = ''f4'', timestamp = 43200000000, message = ''exp: F'', tag = ''exp:''\<rparr>]"
  let ?s1 = "\<lparr>session_id = ''SESSION-001'', start_commit = \<lparr>hash = ''a1'', timestamp = 32400000000, message = ''exp: A'', tag = ''exp:''\<rparr>,
       end_commit = Some \<lparr>hash = ''c3'', timestamp = 39600000000, message = ''succeed: C'', tag = ''succeed:''\<rparr>, intermediate_commits = [\<lparr>hash = ''b2'', timestamp = 36000000000, message = ''obs: B'', tag = ''obs:''\<rparr>]\<rparr>"
  let ?s2 = "\<lparr>session_id = ''SESSION-002'', start_commit = \<lparr>hash = ''f4'', timestamp = 43200000000, message = ''exp: F'', tag = ''exp:''\<rparr>,
       end_commit = None, intermediate_commits = []\<rparr>"
  have b: "build_sessions ?cs = [?s1, ?s2]" by code_simp
  have n: "\<not> is_complete ?s2" by (simp add: is_complete_def)
  have v: "sum_list (map calculate_duration (filter is_complete [?s1, ?s2])) = 2" by code_simp
  note inst = total_over_complete [of "build_sessions ?cs"]
  have m: "?s2 \<in> set (build_sessions ?cs)" by (simp only: b) simp
  have z: "calculate_duration ?s2 = 0"
    using inst m n by blast
  have t: "total_hours (build_sessions ?cs) = 2"
    using inst [THEN conjunct1] by (simp only: b v)
  show ?thesis
    by (intro conjI; fact b n z t)
qed

subsection \<open>Session identifiers\<close>

text \<open>Reading the digits of a formatted number gives the number back.\<close>

lemma digit_val_digit_char: "d < 10 \<Longrightarrow> digit_val (digit_char d) = d"
proof -
  assume "d < 10"
  then have "d \<in> {0, 1, 2, 3, 4, 5, 6, 7, 8, 9}" by auto
  then show ?thesis
    by (elim insertE emptyE) (simp_all add: digit_val_def digit_char_def)
qed

lemma read_nat_snoc: "read_nat (s @ [c]) = 10 * read_nat s + digit_val c"
  by (simp add: read_nat_def)

lemma read_nat_str_nat: "read_nat (str_nat n) = n"
proof (induction n rule: str_nat.induct)
  case (1 n)
  show ?case
  proof (cases "n < 10")
    case True
    then show ?thesis
      using read_nat_snoc [of "[]" "digit_char n"]
      by (simp add: str_nat.simps [of n] digit_val_digit_char read_nat_def)
  next
    case False
    then have "read_nat (str_nat n) = 10 * read_nat (str_nat (n div 10)) + digit_val (digit_char (n mod 10))"
      by (simp add: str_nat.simps [of n] read_nat_snoc)
    also have "\<dots> = 10 * (n div 10) + n mod 10"
      using False "1.IH" by (simp add: digit_val_digit_char)
    finally show ?thesis by simp
  qed
qed

lemma foldl_digits_zeros:
  "foldl (\<lambda>a c. 10 * a + digit_val c) 0 (replicate k (CHR ''0'') @ s)
   = foldl (\<lambda>a c. 10 * a + digit_val c) 0 s"
  by (induction k) (simp_all add: digit_val_def)

lemma read_nat_zeros: "read_nat (replicate k (CHR ''0'') @ s) = read_nat s"
  by (simp only: read_nat_def foldl_digits_zeros)

lemma read_nat_format: "read_nat (format_03d n) = n"
  by (simp add: format_03d_def read_nat_zeros read_nat_str_nat)

lemma session_number_new: "session_number (new_session n c e) = n"
  by (simp add: session_number_def new_session_def mk_session_id_def read_nat_format)

lemma number_of_id: "read_nat (drop (length ''SESSION-'') (mk_session_id n)) = n"
  by (simp add: mk_session_id_def read_nat_format)

lemma inj_mk_session_id: "inj mk_session_id"
  by (rule inj_on_inverseI [of _ "\<lambda>s. read_nat (drop (length ''SESSION-'') s)"]) (rule number_of_id)

subsection \<open>Invariants of the session builder\<close>

lemma map_filter_snoc:
  "List.map_filter f (xs @ [x]) = List.map_filter f xs @ (case f x of None \<Rightarrow> [] | Some y \<Rightarrow> [y])"
  by (simp add: List.map_filter_def split: option.splits)

lemma build_step_ends:
  assumes "\<forall>cur. current_session b = Some cur \<longrightarrow> end_commit cur = None"
  shows "List.map_filter end_commit (sessions (build_step c b)) =
         List.map_filter end_commit (sessions b) @ (if is_session_end c then [c] else [])"
  using assms end_not_start [of c]
  by (cases "current_session b")
     (auto simp: build_step_def Let_def new_session_def is_complete_def map_filter_snoc)

lemma run_ends: "List.map_filter end_commit (sessions (run pre)) = filter is_session_end pre"
proof (induction pre rule: rev_induct)
  case Nil
  show ?case by (simp add: run_Nil init_builder_def List.map_filter_def)
next
  case (snoc c pre)
  show ?case
    unfolding run_snoc build_step_ends [OF run_open_all] snoc.IH by simp
qed

lemma flush_ends:
  "List.map_filter end_commit (flush (run pre)) = List.map_filter end_commit (sessions (run pre))"
  using run_open_all [of pre]
  by (cases "current_session (run pre)") (auto simp: flush_def map_filter_snoc)

lemma build_step_ids:
  assumes "\<forall>cur. current_session b = Some cur \<longrightarrow> end_commit cur = None"
    and "map session_id (flush b) = map mk_session_id [1 ..< session_counter b]"
    and "1 \<le> session_counter b"
  shows "map session_id (flush (build_step c b)) =
           map mk_session_id [1 ..< session_counter (build_step c b)]
       \<and> 1 \<le> session_counter (build_step c b)"
  using assms
  by (cases "current_session b")
     (auto simp: build_step_def Let_def new_session_def is_complete_def flush_def)

lemma run_ids:
  "map session_id (flush (run pre)) = map mk_session_id [1 ..< session_counter (run pre)]
   \<and> 1 \<le> session_counter (run pre)"
proof (induction pre rule: rev_induct)
  case Nil
  show ?case by (simp add: run_Nil init_builder_def flush_def)
next
  case (snoc c pre)
  show ?case
    unfolding run_snoc using run_open_all snoc.IH [THEN conjunct1] snoc.IH [THEN conjunct2]
    by (rule build_step_ids)
qed

lemma run_numbers: "map session_number (flush (run pre)) = [1 ..< session_counter (run pre)]"
proof -
  have "map session_number (flush (run pre)) =
        map (\<lambda>s. read_nat (drop (length ''SESSION-'') s)) (map session_id (flush (run pre)))"
    by (simp add: session_number_def [abs_def] comp_def)
  also have "\<dots> = map (\<lambda>n. read_nat (drop (length ''SESSION-'') (mk_session_id n)))
                      [1 ..< session_counter (run pre)]"
    by (simp only: run_ids [THEN conjunct1] map_map comp_def)
  also have "\<dots> = [1 ..< session_counter (run pre)]"
    by (simp only: number_of_id map_ident [unfolded id_def])
  finally show ?thesis .
qed

lemma run_ids_distinct: "distinct (map session_id (flush (run pre)))"
  unfolding run_ids [THEN conjunct1]
  by (simp add: distinct_map inj_on_subset [OF inj_mk_session_id])

lemma current_not_emitted:
  assumes "current_session (run pre) = Some cur"
  shows "cur \<notin> set (sessions (run pre))"
proof
  assume "cur \<in> set (sessions (run pre))"
  then have "session_id cur \<in> set (map session_id (sessions (run pre)))" by simp
  moreover have "distinct (map session_id (sessions (run pre)) @ [session_id cur])"
    using run_ids_distinct [of pre] assms by (simp add: flush_def)
  ultimately show False by simp
qed

text \<open>
  C7 (invariants). After any prefix \<open>pre\<close> of the stream: the one session held open, if
  any, is Incomplete and is not among the emitted sessions, and the emitted sessions are
  never changed by the rest of the stream; the end commits attached to the emitted
  sessions are, in order, exactly the end commits of the stream, each one once, so that
  no two sessions share an end commit when the commits of the stream are distinct; the
  identifiers of the sessions are those of the numbers 1, 2, 3, ... in order, hence
  increasing in their number and pairwise distinct.
\<close>

theorem builder_invariants:
  "(\<forall>cur. current_session (run pre) = Some cur \<longrightarrow>
       \<not> is_complete cur \<and> cur \<notin> set (sessions (run pre)))
   \<and> (\<exists>ys. sessions (run (pre @ post)) = sessions (run pre) @ ys)
   \<and> List.map_filter end_commit (sessions (run pre)) = filter is_session_end pre
   \<and> List.map_filter end_commit (build_sessions pre) = filter is_session_end pre
   \<and> (distinct pre \<longrightarrow> distinct (List.map_filter end_commit (build_sessions pre)))
   \<and> map session_id (build_sessions pre) = map mk_session_id [1 ..< session_counter (run pre)]
   \<and> map session_number (build_sessions pre) = [1 ..< session_counter (run pre)]
   \<and> sorted_wrt (<) (map session_number (build_sessions pre))
   \<and> distinct (map session_id (build_sessions pre))"
proof -
  have a: "\<forall>cur. current_session (run pre) = Some cur \<longrightarrow>
             \<not> is_complete cur \<and> cur \<notin> set (sessions (run pre))"
    using run_open [of pre] current_not_emitted [of pre] by (simp add: is_complete_def)
  have b: "\<exists>ys. sessions (run (pre @ post)) = sessions (run pre) @ ys"
    unfolding run_append by (rule fold_step_sessions)
  have c: "List.map_filter end_commit (build_sessions pre) = filter is_session_end pre"
    by (simp only: build_sessions_def flush_ends run_ends)
  have d: "distinct pre \<longrightarrow> distinct (List.map_filter end_commit (build_sessions pre))"
    by (simp only: c) simp
  have e: "map session_id (build_sessions pre) = map mk_session_id [1 ..< session_counter (run pre)]"
    by (simp only: build_sessions_def run_ids [THEN conjunct1])
  have f: "map session_number (build_sessions pre) = [1 ..< session_counter (run pre)]"
    by (simp only: build_sessions_def run_numbers)
  have g: "sorted_wrt (<) (map session_number (build_sessions pre))"
    by (simp only: f) simp
  have h: "distinct (map session_id (build_sessions pre))"
    by (simp only: build_sessions_def run_ids_distinct)
  show ?thesis
    by (intro conjI; fact a b c d e f g h run_ends)
qed

theorem builder_invariants_witness:
  "distinct
     [\<lparr>hash = ''a1'', timestamp = 32400000000, message = ''exp: A'', tag = ''exp:''\<rparr>,
      \<lparr>hash = ''e2'', timestamp = 36000000000, message = ''stop: E'', tag = ''stop:''\<rparr>,
      \<lparr>hash = ''x3'', timestamp = 39600000000, message = ''fail: X'', tag = ''fail:''\<rparr>,
      \<lparr>hash = ''b4'', timestamp = 43200000000, message = ''exp: B'', tag = ''exp:''\<rparr>]
   \<and> current_session (run
     [\<lparr>hash = ''a1'', timestamp = 32400000000, message = ''exp: A'', tag = ''exp:''\<rparr>,
      \<lparr>hash = ''e2'', timestamp = 36000000000, message = ''stop: E'', tag = ''stop:''\<rparr>,
      \<lparr>hash = ''x3'', timestamp = 39600000000, message = ''fail: X'', tag = ''fail:''\<rparr>,
      \<lparr>hash = ''b4'', timestamp = 43200000000, message = ''exp: B'', tag = ''exp:''\<rparr>]) =
     Some \<lparr>session_id = ''SESSION-003'', start_commit = \<lparr>hash = ''b4'', timestamp = 43200000000, message = ''exp: B'', tag = ''exp:''\<rparr>,
       end_commit = None, intermediate_commits = []\<rparr>
   \<and> \<not> is_complete
      \<lparr>session_id = ''SESSION-003'', start_commit = \<lparr>hash = ''b4'', timestamp = 43200000000, message = ''exp: B'', tag = ''exp:''\<rparr>,
       end_commit = None, intermediate_commits = []\<rparr>
   \<and> distinct (List.map_filter end_commit (build_sessions
     [\<lparr>hash = ''a1'', timestamp = 32400000000, message = ''exp: A'', tag = ''exp:''\<rparr>,
      \<lparr>hash = ''e2'', timestamp = 36000000000, message = ''stop: E'', tag = ''stop:''\<rparr>,
      \<lparr>hash = ''x3'', timestamp = 39600000000, message = ''fail: X'', tag = ''fail:''\<rparr>,
      \<lparr>hash = ''b4'', timestamp = 43200000000, message = ''exp: B'', tag = ''exp:''\<rparr>]))
   \<and> List.map_filter end_commit (build_sessions
     [\<lparr>hash = ''a1'', timestamp = 32400000000, message = ''exp: A'', tag = ''exp:''\<rparr>,
      \<lparr>hash = ''e2'', timestamp = 36000000000, message = ''stop: E'', tag = ''stop:''\<rparr>,
      \<lparr>hash = ''x3'', timestamp = 39600000000, message = ''fail: X'', tag = ''fail:''\<rparr>,
      \<lparr>hash = ''b4'', timestamp = 43200000000, message = ''exp: B'', tag = ''exp:''\<rparr>]) =
     [\<lparr>hash = ''e2'', timestamp = 36000000000, message = ''stop: E'', tag = ''stop:''\<rparr>,
      \<lparr>hash = ''x3'', timestamp = 39600000000, message = ''fail: X'', tag = ''fail:''\<rparr>]
   \<and> map session_id (build_sessions
     [\<lparr>hash = ''a1'', timestamp = 32400000000, message = ''exp: A'', tag = ''exp:''\<rparr>,
      \<lparr>hash = ''e2'', timestamp = 36000000000, message = ''stop: E'', tag = ''stop:''\<rparr>,
      \<lparr>hash = ''x3'', timestamp = 39600000000, message = ''fail: X'', tag = ''fail:''\<rparr>,
      \<lparr>hash = ''b4'', timestamp = 43200000000, message = ''exp: B'', tag = ''exp:''\<rparr>]) = [''SESSION-001'', ''SESSION-002'', ''SESSION-003'']"
proof -
  let ?pre = "[\<lparr>hash = ''a1'', timestamp = 32400000000, message = ''exp: A'', tag = ''exp:''\<rparr>,
      \<lparr>hash = ''e2'', timestamp = 36000000000, message = ''stop: E'', tag = ''stop:''\<rparr>,
      \<lparr>hash = ''x3'', timestamp = 39600000000, message = ''fail: X'', tag = ''fail:''\<rparr>,
      \<lparr>hash = ''b4'', timestamp = 43200000000, message = ''exp: B'', tag = ''exp:''\<rparr>]"
  let ?cur = "\<lparr>session_id = ''SESSION-003'', start_commit = \<lparr>hash = ''b4'', timestamp = 43200000000, message = ''exp: B'', tag = ''exp:''\<rparr>,
       end_commit = None, intermediate_commits = []\<rparr>"
  have d: "distinct ?pre" by simp
  have r: "run ?pre =
           \<lparr>sessions = sessions (run ?pre), current_session = Some ?cur, session_counter = 4\<rparr>"
    by code_simp
  have c: "current_session (run ?pre) = Some ?cur"
    by (subst r) simp
  have k: "session_counter (run ?pre) = 4"
    by (subst r) simp
  have ids: "map mk_session_id [1 ..< 4] = [''SESSION-001'', ''SESSION-002'', ''SESSION-003'']"
    by code_simp
  have f: "filter is_session_end ?pre =
           [\<lparr>hash = ''e2'', timestamp = 36000000000, message = ''stop: E'', tag = ''stop:''\<rparr>,
            \<lparr>hash = ''x3'', timestamp = 39600000000, message = ''fail: X'', tag = ''fail:''\<rparr>]"
    by (simp add: is_session_end_def)
  note inst = builder_invariants [of ?pre "[]"]
  have 1: "\<not> is_complete ?cur"
    using inst c by blast
  have 2: "distinct (List.map_filter end_commit (build_sessions ?pre))"
    using inst d by blast
  have 3: "List.map_filter end_commit (build_sessions ?pre) = filter is_session_end ?pre"
    using inst by blast
  have 4: "map session_id (build_sessions ?pre) = map mk_session_id [1 ..< session_counter (run ?pre)]"
    using inst by blast
  show ?thesis
    by (intro conjI; (fact d c 1 2)?; (simp only: 3 f)?; (simp only: 4 k ids)?)
qed

subsection \<open>The classifier against the table\<close>

lemma list_all2_map_eq: "list_all2 (\<lambda>a b. f a = f b) xs ys = (map f xs = map f ys)"
proof -
  have "list_all2 (\<lambda>a b. f a = f b) xs ys = list_all2 (=) (map f xs) (map f ys)"
    by (simp add: list_all2_map1 list_all2_map2)
  then show ?thesis by (simp add: list_all2_eq)
qed

lemma ci_prefix_startswith:
  assumes "lower t = t"
  shows "ci_prefix t msg = startswith (lower msg) t"
proof -
  have t: "map lower_char t = t" using assms by (simp add: lower_def)
  have "ci_prefix t msg = (length t \<le> length msg \<and> t = take (length t) (lower msg))"
    by (simp add: ci_prefix_def list_all2_map_eq t take_map lower_def)
  also have "\<dots> = (take (length t) (lower msg) = t)"
  proof
    assume "length t \<le> length msg \<and> t = take (length t) (lower msg)"
    then show "take (length t) (lower msg) = t" by simp
  next
    assume h: "take (length t) (lower msg) = t"
    then have "length (take (length t) (lower msg)) = length t" by simp
    then have "length t \<le> length msg" by (simp add: lower_def)
    with h show "length t \<le> length msg \<and> t = take (length t) (lower msg)" by simp
  qed
  finally show ?thesis by (simp add: startswith_def)
qed

lemma lower_tags:
  "lower ''exp:'' = ''exp:''" "lower ''obs:'' = ''obs:''" "lower ''test:'' = ''test:''"
  "lower ''fail:'' = ''fail:''" "lower ''succeed:'' = ''succeed:''"
  "lower ''pivot:'' = ''pivot:''" "lower ''stop:'' = ''stop:''"
  by code_simp+

lemmas ci_tags = lower_tags [THEN ci_prefix_startswith]

lemma tag_roles:
  "commit_role \<lparr>hash = h, timestamp = t, message = m, tag = ''exp:''\<rparr> = Start"
  "commit_role \<lparr>hash = h, timestamp = t, message = m, tag = ''obs:''\<rparr> = Intermediate"
  "commit_role \<lparr>hash = h, timestamp = t, message = m, tag = ''test:''\<rparr> = Intermediate"
  "commit_role \<lparr>hash = h, timestamp = t, message = m, tag = ''fail:''\<rparr> = End"
  "commit_role \<lparr>hash = h, timestamp = t, message = m, tag = ''succeed:''\<rparr> = End"
  "commit_role \<lparr>hash = h, timestamp = t, message = m, tag = ''pivot:''\<rparr> = End"
  "commit_role \<lparr>hash = h, timestamp = t, message = m, tag = ''stop:''\<rparr> = End"
  by (simp_all add: commit_role_def is_session_start_def is_session_end_def)

lemma sred_commit_cases:
  "sred_commit (h, t, msg) =
     (if spec_role msg = NoRole then None
      else Some \<lparr>hash = take 8 h, timestamp = t, message = msg,
                 tag = the (classify_tag msg)\<rparr>)
   \<and> (spec_role msg \<noteq> NoRole \<longrightarrow>
        commit_role \<lparr>hash = take 8 h, timestamp = t, message = msg,
                      tag = the (classify_tag msg)\<rparr> = spec_role msg)"
  by (simp add: sred_commit_def classify_tag_def SRED_TAGS_def spec_role_def ci_tags tag_roles)

lemma sred_commit_None: "(sred_commit (h, t, msg) = None) = (spec_role msg = NoRole)"
  using sred_commit_cases [of h t msg] by simp

lemma sred_commit_Some:
  assumes "sred_commit (h, t, msg) = Some c"
  shows "commit_role c = spec_role msg \<and> spec_role msg \<noteq> NoRole
       \<and> message c = msg \<and> timestamp c = t \<and> hash c = take 8 h"
proof -
  have n: "spec_role msg \<noteq> NoRole"
    using assms sred_commit_None [of h t msg] by auto
  then have c: "c = \<lparr>hash = take 8 h, timestamp = t, message = msg,
                      tag = the (classify_tag msg)\<rparr>"
    using assms sred_commit_cases [of h t msg] by simp
  have "commit_role c = spec_role msg"
    unfolding c using n sred_commit_cases [of h t msg] by blast
  then show ?thesis using n by (simp add: c)
qed

lemma message_role_spec: "message_role msg = spec_role msg"
proof (cases "sred_commit ([], 0, msg)")
  case None
  then show ?thesis
    using sred_commit_None [of "[]" 0 msg] by (simp add: message_role_def)
next
  case (Some c)
  then show ?thesis
    using sred_commit_Some [OF Some] by (simp add: message_role_def)
qed

lemma classified_messages:
  "map message (List.map_filter sred_commit lines) =
   filter (\<lambda>m. spec_role m \<noteq> NoRole) (map (\<lambda>(h, t, m). m) lines)"
proof (induction lines)
  case Nil
  show ?case by (simp add: List.map_filter_def)
next
  case (Cons l lines)
  obtain h t m where l: "l = (h, t, m)" by (cases l)
  show ?case
  proof (cases "sred_commit (h, t, m)")
    case None
    then show ?thesis
      using Cons sred_commit_None [of h t m] by (simp add: l List.map_filter_simps)
  next
    case (Some c)
    then show ?thesis
      using Cons sred_commit_Some [OF Some] by (simp add: l List.map_filter_simps)
  qed
qed

lemma classified_roles:
  assumes "c \<in> set (List.map_filter sred_commit lines)"
  shows "commit_role c = spec_role (message c) \<and> spec_role (message c) \<noteq> NoRole"
proof -
  obtain l where "l \<in> set lines" and "sred_commit l = Some c"
    using assms by (auto simp: List.map_filter_def)
  moreover obtain h t m where "l = (h, t, m)" by (cases l)
  ultimately have "sred_commit (h, t, m) = Some c" by simp
  from sred_commit_Some [OF this] show ?thesis by simp
qed

text \<open>
  C5 (classifier). The role the code gives a message is the role of the table, by a
  prefix match that ignores case: \<open>exp:\<close> is a start, \<open>obs:\<close> and \<open>test:\<close> are
  intermediate, \<open>succeed:\<close>, \<open>pivot:\<close>, \<open>stop:\<close> and \<open>fail:\<close> are an end, anything else
  has no role. A line yields no commit exactly when its message has no role; the commit
  it yields otherwise keeps message and timestamp and takes the branch of the builder that
  the table names. So every commit handed to the builder has a role, and their number is
  the number of lines whose message has one.
\<close>

theorem classifier_table:
  "message_role msg = spec_role msg
   \<and> (sred_commit (h, t, msg) = None) = (spec_role msg = NoRole)
   \<and> (\<forall>c. sred_commit (h, t, msg) = Some c \<longrightarrow>
         commit_role c = spec_role msg \<and> message c = msg \<and> timestamp c = t)
   \<and> (\<forall>c \<in> set (get_sred_commits lines).
         commit_role c = spec_role (message c) \<and> spec_role (message c) \<noteq> NoRole)
   \<and> length (get_sred_commits lines) =
       length (filter (\<lambda>m. spec_role m \<noteq> NoRole) (map (\<lambda>(h, t, m). m) lines))"
proof -
  have 1: "\<forall>c. sred_commit (h, t, msg) = Some c \<longrightarrow>
         commit_role c = spec_role msg \<and> message c = msg \<and> timestamp c = t"
    using sred_commit_Some by blast
  have 2: "\<forall>c \<in> set (get_sred_commits lines).
         commit_role c = spec_role (message c) \<and> spec_role (message c) \<noteq> NoRole"
    using classified_roles by (simp add: get_sred_commits_def)
  have "length (get_sred_commits lines) = length (map message (List.map_filter sred_commit lines))"
    by (simp add: get_sred_commits_def)
  then have 3: "length (get_sred_commits lines) =
       length (filter (\<lambda>m. spec_role m \<noteq> NoRole) (map (\<lambda>(h, t, m). m) lines))"
    by (simp only: classified_messages)
  show ?thesis
    by (intro conjI; fact message_role_spec sred_commit_None 1 2 3)
qed

theorem classifier_table_witness:
  "message_role ''EXP: cache'' = Start
   \<and> message_role ''Test: run'' = Intermediate
   \<and> message_role ''FAIL: slow'' = End
   \<and> message_role ''chore: tidy'' = NoRole
   \<and> sred_commit (''0123456789ab'', 7, ''chore: tidy'') = None
   \<and> sred_commit (''0123456789ab'', 7, ''Pivot: other'') =
       Some \<lparr>hash = ''01234567'', timestamp = 7, message = ''Pivot: other'', tag = ''pivot:''\<rparr>
   \<and> commit_role
       \<lparr>hash = ''01234567'', timestamp = 7, message = ''Pivot: other'', tag = ''pivot:''\<rparr> = End
   \<and> get_sred_commits
        [(''0123456789ab'', 7, ''Pivot: other''), (''89abcdef0123'', 5, ''chore: tidy''),
         (''456789abcdef'', 3, ''exp: first'')] =
       [\<lparr>hash = ''456789ab'', timestamp = 3, message = ''exp: first'', tag = ''exp:''\<rparr>,
        \<lparr>hash = ''01234567'', timestamp = 7, message = ''Pivot: other'', tag = ''pivot:''\<rparr>]"
proof -
  have s: "spec_role ''EXP: cache'' = Start" "spec_role ''Test: run'' = Intermediate"
    "spec_role ''FAIL: slow'' = End" "spec_role ''chore: tidy'' = NoRole"
    "spec_role ''Pivot: other'' = End"
    by code_simp+
  have c: "sred_commit (''0123456789ab'', 7, ''Pivot: other'') =
       Some \<lparr>hash = ''01234567'', timestamp = 7, message = ''Pivot: other'', tag = ''pivot:''\<rparr>"
    by code_simp
  have g: "get_sred_commits
        [(''0123456789ab'', 7, ''Pivot: other''), (''89abcdef0123'', 5, ''chore: tidy''),
         (''456789abcdef'', 3, ''exp: first'')] =
       [\<lparr>hash = ''456789ab'', timestamp = 3, message = ''exp: first'', tag = ''exp:''\<rparr>,
        \<lparr>hash = ''01234567'', timestamp = 7, message = ''Pivot: other'', tag = ''pivot:''\<rparr>]"
    by code_simp
  have 1: "message_role ''EXP: cache'' = Start"
    using classifier_table [of "''EXP: cache''"] by (simp only: s)
  have 2: "message_role ''Test: run'' = Intermediate"
    using classifier_table [of "''Test: run''"] by (simp only: s)
  have 3: "message_role ''FAIL: slow'' = End"
    using classifier_table [of "''FAIL: slow''"] by (simp only: s)
  have 4: "message_role ''chore: tidy'' = NoRole"
    using classifier_table [of "''chore: tidy''"] by (simp only: s)
  have 5: "sred_commit (''0123456789ab'', 7, ''chore: tidy'') = None"
    using classifier_table [of "''chore: tidy''" "''0123456789ab''" 7] by (simp only: s)
  have 6: "commit_role
       \<lparr>hash = ''01234567'', timestamp = 7, message = ''Pivot: other'', tag = ''pivot:''\<rparr> = End"
    using classifier_table [of "''Pivot: other''" "''0123456789ab''" 7] c by (simp only: s)
  show ?thesis
    by (intro conjI; fact 1 2 3 4 5 6 c g)
qed

subsection \<open>The experiment identifier\<close>

lemma length_EXP_DASH: "length EXP_DASH = 4"
  by code_simp

lemma concat_codepoints: "concat (codepoints s) = s"
  by (induction s rule: codepoints.induct) simp_all

lemma takeWhile_prefix_all:
  assumes "take n xs = ds" and "list_all P ds"
  shows "takeWhile P xs = ds @ takeWhile P (drop n xs)"
proof -
  have "xs = ds @ drop n xs"
    using assms(1) append_take_drop_id [of n xs] by simp
  then have "takeWhile P xs = takeWhile P (ds @ drop n xs)" by simp
  also have "\<dots> = ds @ takeWhile P (drop n xs)"
    using assms(2) by (simp add: takeWhile_append2 list_all_iff)
  finally show ?thesis .
qed

lemma exp_ref_prefix:
  assumes "exp_ref P v" and "take (length v) s = v"
  shows "take 4 s = EXP_DASH \<and> take (length v - 4) (drop 4 s) = drop 4 v \<and> 4 < length v"
proof -
  have v4: "take 4 v = EXP_DASH" and nz: "drop 4 v \<noteq> []"
    using assms(1) by (simp_all add: exp_ref_def length_EXP_DASH)
  have len: "4 < length v" using nz by simp
  have "take 4 s = take 4 (take (length v) s)"
    using len by (simp add: min_def)
  then have 1: "take 4 s = EXP_DASH" using assms(2) v4 by simp
  have "take (length v - 4) (drop 4 s) = drop 4 (take (length v) s)"
    by (simp add: drop_take)
  then have 2: "take (length v - 4) (drop 4 s) = drop 4 v" using assms(2) by simp
  show ?thesis using 1 2 len by simp
qed

lemma match_here_longest:
  assumes "exp_ref P v" and "take (length v) s = v"
  shows "\<exists>w. match_here P s = Some w \<and> length v \<le> length w"
proof -
  have p: "take 4 s = EXP_DASH" "take (length v - 4) (drop 4 s) = drop 4 v" "4 < length v"
    using exp_ref_prefix [OF assms] by simp_all
  have d: "list_all P (drop 4 v)" using assms(1) by (simp add: exp_ref_def length_EXP_DASH)
  have tw: "takeWhile P (drop 4 s) =
            drop 4 v @ takeWhile P (drop (length v - 4) (drop 4 s))"
    using p(2) d by (rule takeWhile_prefix_all)
  then have ne: "takeWhile P (drop 4 s) \<noteq> []"
    using p(3) by simp
  have "length v - 4 \<le> length (takeWhile P (drop 4 s))"
    by (simp add: tw)
  then have "length v \<le> length (EXP_DASH @ takeWhile P (drop 4 s))"
    by (simp add: length_EXP_DASH)
  moreover have "match_here P s = Some (EXP_DASH @ takeWhile P (drop 4 s))"
    using p(1) ne by (simp add: match_here_def Let_def length_EXP_DASH)
  ultimately show ?thesis by blast
qed

lemma match_here_sound:
  assumes "match_here P s = Some w"
  shows "exp_ref P w \<and> take (length w) s = w"
proof -
  let ?ds = "takeWhile P (drop 4 s)"
  have c: "take 4 s = EXP_DASH" and ne: "?ds \<noteq> []" and w: "w = EXP_DASH @ ?ds"
    using assms by (auto simp: match_here_def Let_def length_EXP_DASH split: if_splits)
  have dig: "list_all P ?ds"
    by (simp add: list_all_iff) (meson set_takeWhileD)
  have 1: "exp_ref P w"
    using ne dig by (simp add: exp_ref_def w length_EXP_DASH)
  have lw: "length w = 4 + length ?ds" by (simp add: w length_EXP_DASH)
  have "take (length w) s = take 4 s @ take (length ?ds) (drop 4 s)"
    unfolding lw by (rule take_add)
  also have "take (length ?ds) (drop 4 s) = ?ds"
    by (metis takeWhile_eq_take)
  finally have 2: "take (length w) s = w" by (simp add: c w)
  show ?thesis using 1 2 by simp
qed

lemma occurs_at_0: "occurs_at P s 0 w = (exp_ref P w \<and> take (length w) s = w)"
  by (simp add: occurs_at_def)

lemma occurs_at_Suc: "occurs_at P (c # cs) (Suc i) w = occurs_at P cs i w"
  by (simp add: occurs_at_def)

lemma occurs_at_Nil: "\<not> occurs_at P [] i w"
  by (auto simp: occurs_at_def exp_ref_def)

lemma re_search_None: "re_search P msg = None \<Longrightarrow> \<not> occurs_at P msg i w"
proof (induction msg arbitrary: i)
  case Nil
  show ?case by (rule occurs_at_Nil)
next
  case (Cons c cs)
  from Cons.prems have m: "match_here P (c # cs) = None" and r: "re_search P cs = None"
    by (auto split: option.splits)
  show ?case
  proof (cases i)
    case 0
    show ?thesis
    proof
      assume "occurs_at P (c # cs) i w"
      then have "exp_ref P w" "take (length w) (c # cs) = w"
        using 0 by (simp_all add: occurs_at_0)
      from match_here_longest [OF this] m show False by simp
    qed
  next
    case (Suc j)
    then show ?thesis using Cons.IH [OF r] by (simp add: occurs_at_Suc)
  qed
qed

lemma re_search_Some:
  "re_search P msg = Some w \<Longrightarrow>
   \<exists>j. occurs_at P msg j w
      \<and> (\<forall>k < j. \<forall>v. \<not> occurs_at P msg k v)
      \<and> (\<forall>v. occurs_at P msg j v \<longrightarrow> length v \<le> length w)"
proof (induction msg)
  case Nil
  then show ?case by simp
next
  case (Cons c cs)
  show ?case
  proof (cases "match_here P (c # cs)")
    case (Some w')
    then have eq: "w' = w" using Cons.prems by simp
    have 1: "occurs_at P (c # cs) 0 w"
      using match_here_sound [OF Some] by (simp add: occurs_at_0 eq)
    have 2: "\<forall>v. occurs_at P (c # cs) 0 v \<longrightarrow> length v \<le> length w"
    proof (intro allI impI)
      fix v assume "occurs_at P (c # cs) 0 v"
      then have "exp_ref P v" "take (length v) (c # cs) = v" by (simp_all add: occurs_at_0)
      from match_here_longest [OF this] Some eq show "length v \<le> length w" by simp
    qed
    show ?thesis using 1 2 by (intro exI [of _ 0]) simp
  next
    case None
    then have r: "re_search P cs = Some w" using Cons.prems by simp
    then obtain j where j: "occurs_at P cs j w" "\<forall>k < j. \<forall>v. \<not> occurs_at P cs k v"
      "\<forall>v. occurs_at P cs j v \<longrightarrow> length v \<le> length w"
      using Cons.IH by blast
    have no0: "\<forall>v. \<not> occurs_at P (c # cs) 0 v"
    proof (intro allI notI)
      fix v assume "occurs_at P (c # cs) 0 v"
      then have "exp_ref P v" "take (length v) (c # cs) = v" by (simp_all add: occurs_at_0)
      from match_here_longest [OF this] None show False by simp
    qed
    have "\<forall>k < Suc j. \<forall>v. \<not> occurs_at P (c # cs) k v"
    proof (intro allI impI)
      fix k v assume "k < Suc j"
      then show "\<not> occurs_at P (c # cs) k v"
        using no0 j(2) by (cases k) (simp_all add: occurs_at_Suc)
    qed
    then show ?thesis
      using j(1) j(3) by (intro exI [of _ "Suc j"]) (simp add: occurs_at_Suc)
  qed
qed

lemma occurs_at_substring:
  assumes "occurs_at P (codepoints msg) j w"
  shows "\<exists>pre post. msg = pre @ concat w @ post"
proof -
  let ?cps = "codepoints msg"
  have "?cps = take j ?cps @ take (length w) (drop j ?cps) @ drop (length w) (drop j ?cps)"
    by (simp only: append_take_drop_id)
  then have "?cps = take j ?cps @ w @ drop (length w) (drop j ?cps)"
    using assms by (simp add: occurs_at_def)
  then have "concat ?cps = concat (take j ?cps) @ concat w @ concat (drop (length w) (drop j ?cps))"
    by (metis concat_append)
  then show ?thesis by (metis concat_codepoints)
qed

lemma lowercase_unknown: "re_search P (codepoints ''exp: retry exp-001'') = None"
  by code_simp

text \<open>
  C10 (experiment identifier). Whatever the table of decimal digits: when no word \<open>EXP-\<close>
  followed by digits occurs in the message of the start commit, the identifier is the
  marker \<open>UNKNOWN\<close>. When one occurs, the identifier is such a word, a part of the message,
  at the first position where one occurs, and the longest one there. The match is on the
  upper-case letters only: the message \<open>exp: retry exp-001\<close> gives \<open>UNKNOWN\<close>, although the
  tag of a message is recognised in either case.
\<close>

theorem hypothesis_id_case_sensitive:
  "((\<forall>i w. \<not> occurs_at isdecimal (codepoints (message (start_commit s))) i w) \<longrightarrow>
       hypothesis_id isdecimal s = ''UNKNOWN'')
   \<and> (occurs_at isdecimal (codepoints (message (start_commit s))) i w \<longrightarrow>
        (\<exists>j w'. j \<le> i \<and> hypothesis_id isdecimal s = concat w'
           \<and> occurs_at isdecimal (codepoints (message (start_commit s))) j w'
           \<and> (\<forall>k < j. \<forall>v. \<not> occurs_at isdecimal (codepoints (message (start_commit s))) k v)
           \<and> (\<forall>v. occurs_at isdecimal (codepoints (message (start_commit s))) j v \<longrightarrow>
                  length v \<le> length w')
           \<and> (\<exists>pre post. message (start_commit s) = pre @ hypothesis_id isdecimal s @ post)))
   \<and> (message (start_commit s) = ''exp: retry exp-001'' \<longrightarrow>
        hypothesis_id isdecimal s = ''UNKNOWN'')
   \<and> classify_tag ''EXP: retry exp-001'' = Some ''exp:''"
proof -
  let ?m = "message (start_commit s)"
  let ?c = "codepoints ?m"
  have a: "(\<forall>i w. \<not> occurs_at isdecimal ?c i w) \<longrightarrow> hypothesis_id isdecimal s = ''UNKNOWN''"
  proof
    assume none: "\<forall>i w. \<not> occurs_at isdecimal ?c i w"
    have "re_search isdecimal ?c = None"
    proof (cases "re_search isdecimal ?c")
      case (Some w)
      from re_search_Some [OF Some] none show ?thesis by blast
    qed simp
    then show "hypothesis_id isdecimal s = ''UNKNOWN''" by (simp add: hypothesis_id_def)
  qed
  have b: "occurs_at isdecimal ?c i w \<longrightarrow>
        (\<exists>j w'. j \<le> i \<and> hypothesis_id isdecimal s = concat w'
           \<and> occurs_at isdecimal ?c j w'
           \<and> (\<forall>k < j. \<forall>v. \<not> occurs_at isdecimal ?c k v)
           \<and> (\<forall>v. occurs_at isdecimal ?c j v \<longrightarrow> length v \<le> length w')
           \<and> (\<exists>pre post. ?m = pre @ hypothesis_id isdecimal s @ post))"
  proof
    assume occ: "occurs_at isdecimal ?c i w"
    then have "re_search isdecimal ?c \<noteq> None" using re_search_None by blast
    then obtain w' where w': "re_search isdecimal ?c = Some w'" by blast
    then have h: "hypothesis_id isdecimal s = concat w'" by (simp add: hypothesis_id_def)
    obtain j where j: "occurs_at isdecimal ?c j w'"
      "\<forall>k < j. \<forall>v. \<not> occurs_at isdecimal ?c k v"
      "\<forall>v. occurs_at isdecimal ?c j v \<longrightarrow> length v \<le> length w'"
      using re_search_Some [OF w'] by blast
    have le: "j \<le> i"
    proof (rule ccontr)
      assume "\<not> j \<le> i"
      then have "i < j" by simp
      with j(2) occ show False by blast
    qed
    have sub: "\<exists>pre post. ?m = pre @ hypothesis_id isdecimal s @ post"
      unfolding h using j(1) by (rule occurs_at_substring)
    show "\<exists>j w'. j \<le> i \<and> hypothesis_id isdecimal s = concat w'
           \<and> occurs_at isdecimal ?c j w'
           \<and> (\<forall>k < j. \<forall>v. \<not> occurs_at isdecimal ?c k v)
           \<and> (\<forall>v. occurs_at isdecimal ?c j v \<longrightarrow> length v \<le> length w')
           \<and> (\<exists>pre post. ?m = pre @ hypothesis_id isdecimal s @ post)"
      using le h j sub by blast
  qed
  have c: "?m = ''exp: retry exp-001'' \<longrightarrow> hypothesis_id isdecimal s = ''UNKNOWN''"
  proof
    assume "?m = ''exp: retry exp-001''"
    then have "re_search isdecimal ?c = None" by (simp only: lowercase_unknown)
    then show "hypothesis_id isdecimal s = ''UNKNOWN''"
      by (simp only: hypothesis_id_def option.case)
  qed
  have d: "classify_tag ''EXP: retry exp-001'' = Some ''exp:''"
    by code_simp
  show ?thesis
    by (intro conjI; fact a b c d)
qed

theorem hypothesis_id_case_sensitive_witness:
  "occurs_at ascii_or_arabic_indic
     (codepoints (''exp: EXP-'' @ [CHR 0xD9, CHR 0xA3])) 5
     [''E'', ''X'', ''P'', ''-'', [CHR 0xD9, CHR 0xA3]]
   \<and> hypothesis_id ascii_or_arabic_indic
       \<lparr>session_id = ''SESSION-001'',
        start_commit =
          \<lparr>hash = ''a1'', timestamp = 0,
           message = ''exp: EXP-'' @ [CHR 0xD9, CHR 0xA3], tag = ''exp:''\<rparr>,
        end_commit = None, intermediate_commits = []\<rparr> = ''EXP-'' @ [CHR 0xD9, CHR 0xA3]
   \<and> (\<exists>pre post. ''exp: EXP-'' @ [CHR 0xD9, CHR 0xA3] =
         pre @ (''EXP-'' @ [CHR 0xD9, CHR 0xA3]) @ post)
   \<and> hypothesis_id ascii_or_arabic_indic
       \<lparr>session_id = ''SESSION-002'',
        start_commit =
          \<lparr>hash = ''b2'', timestamp = 0, message = ''exp: retry exp-001'', tag = ''exp:''\<rparr>,
        end_commit = None, intermediate_commits = []\<rparr> = ''UNKNOWN''
   \<and> hypothesis_id ascii_or_arabic_indic
       \<lparr>session_id = ''SESSION-003'',
        start_commit =
          \<lparr>hash = ''c3'', timestamp = 0, message = ''exp: no reference'', tag = ''exp:''\<rparr>,
        end_commit = None, intermediate_commits = []\<rparr> = ''UNKNOWN''"
proof -
  let ?m1 = "''exp: EXP-'' @ [CHR 0xD9, CHR 0xA3]"
  let ?s1 = "\<lparr>session_id = ''SESSION-001'',
        start_commit =
          \<lparr>hash = ''a1'', timestamp = 0, message = ?m1, tag = ''exp:''\<rparr>,
        end_commit = None, intermediate_commits = []\<rparr>"
  let ?s2 = "\<lparr>session_id = ''SESSION-002'',
        start_commit =
          \<lparr>hash = ''b2'', timestamp = 0, message = ''exp: retry exp-001'', tag = ''exp:''\<rparr>,
        end_commit = None, intermediate_commits = []\<rparr>"
  let ?s3 = "\<lparr>session_id = ''SESSION-003'',
        start_commit =
          \<lparr>hash = ''c3'', timestamp = 0, message = ''exp: no reference'', tag = ''exp:''\<rparr>,
        end_commit = None, intermediate_commits = []\<rparr>"
  have m1: "message (start_commit ?s1) = ?m1" by simp
  have m2: "message (start_commit ?s2) = ''exp: retry exp-001''" by simp
  have m3: "message (start_commit ?s3) = ''exp: no reference''" by simp
  have occ: "occurs_at ascii_or_arabic_indic (codepoints ?m1) 5
               [''E'', ''X'', ''P'', ''-'', [CHR 0xD9, CHR 0xA3]]"
    by code_simp
  have h1: "hypothesis_id ascii_or_arabic_indic ?s1 = ''EXP-'' @ [CHR 0xD9, CHR 0xA3]"
    by code_simp
  have "re_search ascii_or_arabic_indic (codepoints ''exp: no reference'') = None"
    by code_simp
  then have none: "\<forall>i w. \<not> occurs_at ascii_or_arabic_indic
                            (codepoints (message (start_commit ?s3))) i w"
    unfolding m3 using re_search_None by blast
  have 1: "\<exists>pre post. ?m1 = pre @ (''EXP-'' @ [CHR 0xD9, CHR 0xA3]) @ post"
    using hypothesis_id_case_sensitive
            [of ascii_or_arabic_indic ?s1 5 "[''E'', ''X'', ''P'', ''-'', [CHR 0xD9, CHR 0xA3]]"]
          occ
    unfolding m1 h1 by blast
  have 2: "hypothesis_id ascii_or_arabic_indic ?s2 = ''UNKNOWN''"
    using hypothesis_id_case_sensitive [of ascii_or_arabic_indic ?s2] m2 by blast
  have 3: "hypothesis_id ascii_or_arabic_indic ?s3 = ''UNKNOWN''"
    using hypothesis_id_case_sensitive [of ascii_or_arabic_indic ?s3] none by blast
  show ?thesis
    by (intro conjI; fact occ h1 1 2 3)
qed

end
